theory Spec2Isabelle
  imports Main
begin

section \<open>Errors and the outside world\<close>

text \<open>
  The Go programs of the repository shell out to \<^verbatim>\<open>npm view\<close>, decode its JSON output
  and write a JSON file. Every failing call returns an \<open>error\<close> value to its caller.
  The constructors name the places of the source an error comes from:
  \<^item> \<open>CmdError\<close>: \<^verbatim>\<open>cmd.CombinedOutput()\<close> or \<^verbatim>\<open>cmd.Output()\<close> returned \<^verbatim>\<open>err != nil\<close>;
  \<^item> \<open>JsonError\<close>: \<^verbatim>\<open>json.Unmarshal\<close> returned \<^verbatim>\<open>err != nil\<close>;
  \<^item> \<open>NoVersionFound p r\<close>: \<^verbatim>\<open>fmt.Errorf("no version found for %s in range %s", p, r)\<close>;
  \<^item> \<open>FetchLatestError d e\<close>: \<^verbatim>\<open>fmt.Errorf("error fetching latest version for %s: %w", d, e)\<close>;
  \<^item> \<open>CreateFileError\<close>, \<open>WriteJsonError\<close>: the two wrapped errors of the file output.
\<close>

datatype error =
    CmdError string
  | JsonError string
  | NoVersionFound string string
  | FetchLatestError string error
  | CreateFileError
  | WriteJsonError

text \<open>
  The outside world is a parameter of every function that touches it. A decoded JSON
  object is a Go map; it is given as the list of its entries in the order in which the
  \<^verbatim>\<open>range\<close> loop of the source visits them (Go leaves that order open).
\<close>

record world =
  npm_view_dependencies :: "string \<Rightarrow> error + string"
  npm_view_versions :: "string \<Rightarrow> error + string"
  unmarshal_deps :: "string \<Rightarrow> error + (string \<times> string) list"
  unmarshal_versions :: "string \<Rightarrow> error + string list"
  os_create :: "string \<Rightarrow> bool"
  encode_ok :: "string \<Rightarrow> bool"

section \<open>getAllDependencies: the breadth-first traversal\<close>

text \<open>
  The local variables of \<^verbatim>\<open>getAllDependencies\<close>: \<open>dependencies\<close>, \<open>toProcess\<close> and
  \<open>seen\<close> (a \<^verbatim>\<open>map[string]bool\<close>, whose missing keys read as false). \<open>queried\<close> is
  the log of the keys handed to \<^verbatim>\<open>npm view <key> dependencies --json\<close>, oldest first.
\<close>

record bfs_state =
  dependencies :: "string \<rightharpoonup> string"
  toProcess :: "string list"
  seen :: "string \<Rightarrow> bool"
  queried :: "string list"

text \<open>The body of \<^verbatim>\<open>for dep, versionRange := range deps\<close>.\<close>

definition addDep :: "string \<times> string \<Rightarrow> bfs_state \<Rightarrow> bfs_state" where
  "addDep p st =
     (case p of (dep, versionRange) \<Rightarrow>
        st\<lparr>dependencies := (dependencies st)(dep \<mapsto> versionRange),
           toProcess := (if \<not> seen st dep then toProcess st @ [dep] else toProcess st)\<rparr>)"

text \<open>The replacement of an empty or \<^verbatim>\<open>null\<close> output by \<^verbatim>\<open>{}\<close>.\<close>

definition normalizeOutput :: "string \<Rightarrow> string" where
  "normalizeOutput output =
     (if length output = 0 \<or> output = ''null'' then ''{}'' else output)"

datatype outcome =
    Continue bfs_state
  | Return "error + (string \<rightharpoonup> string)" "string list"

text \<open>
  One evaluation of the loop condition and, when it holds, one run of the loop body.
  \<open>Return\<close> carries what the function returns and the log of queries.
\<close>

definition loopBody :: "world \<Rightarrow> bfs_state \<Rightarrow> outcome" where
  "loopBody w st =
     (case toProcess st of
        [] \<Rightarrow> Return (Inr (dependencies st)) (queried st)
      | current # rest \<Rightarrow>
          if seen st current then Continue (st\<lparr>toProcess := rest\<rparr>)
          else
            (case npm_view_dependencies w current of
               Inl err \<Rightarrow> Return (Inl err) (queried st @ [current])
             | Inr output \<Rightarrow>
                 (case unmarshal_deps w (normalizeOutput output) of
                    Inl err \<Rightarrow> Return (Inl err) (queried st @ [current])
                  | Inr deps \<Rightarrow>
                      Continue (fold addDep deps
                        (st\<lparr>toProcess := rest,
                            seen := (seen st)(current := True),
                            queried := queried st @ [current]\<rparr>)))))"

text \<open>
  The \<^verbatim>\<open>for len(toProcess) > 0\<close> loop. Nothing in the source bounds the number of
  its iterations, so the loop is a partial function: \<open>None\<close> is a run that never returns.
\<close>

partial_function (option) bfsLoop :: "world \<Rightarrow> bfs_state \<Rightarrow> ((error + (string \<rightharpoonup> string)) \<times> string list) option" where
  "bfsLoop w st =
     (case loopBody w st of
        Return res qs \<Rightarrow> Some (res, qs)
      | Continue st' \<Rightarrow> bfsLoop w st')"

declare bfsLoop.simps [code]

text \<open>
  The first \<open>k\<close> iterations of the same loop: \<open>Continue\<close> with the local variables when
  the loop is still running after them, \<open>Return\<close> when it has returned by then.
\<close>

fun bfsRun :: "nat \<Rightarrow> world \<Rightarrow> bfs_state \<Rightarrow> outcome" where
  "bfsRun 0 w st = Continue st"
| "bfsRun (Suc k) w st =
     (case loopBody w st of
        Return res qs \<Rightarrow> Return res qs
      | Continue st' \<Rightarrow> bfsRun k w st')"

definition rootKey :: "string \<Rightarrow> string \<Rightarrow> string" where
  "rootKey packageName packageVersion = packageName @ ''@'' @ packageVersion"

definition initState :: "string \<Rightarrow> string \<Rightarrow> bfs_state" where
  "initState packageName packageVersion =
     \<lparr>dependencies = Map.empty,
      toProcess = [rootKey packageName packageVersion],
      seen = (\<lambda>_. False),
      queried = []\<rparr>"

definition getAllDependencies :: "world \<Rightarrow> string \<Rightarrow> string \<Rightarrow> ((error + (string \<rightharpoonup> string)) \<times> string list) option" where
  "getAllDependencies w packageName packageVersion =
     bfsLoop w (initState packageName packageVersion)"


text \<open>
  What the traversal reads for a key: the decoded entries of a successful query, and
  nothing for a failed one. The targets of these entries are the edges of the dependency
  graph; \<open>reachable\<close> is the set of keys that the graph connects to the root key.
\<close>

definition directDeps :: "world \<Rightarrow> string \<Rightarrow> (string \<times> string) list" where
  "directDeps w k =
     (case npm_view_dependencies w k of
        Inl err \<Rightarrow> []
      | Inr output \<Rightarrow>
          (case unmarshal_deps w (normalizeOutput output) of
             Inl err \<Rightarrow> []
           | Inr deps \<Rightarrow> deps))"

inductive_set reachable :: "world \<Rightarrow> string \<Rightarrow> string set" for w :: world and root :: string where
  root: "root \<in> reachable w root"
| dep: "k \<in> reachable w root \<Longrightarrow> (d, r) \<in> set (directDeps w k) \<Longrightarrow> d \<in> reachable w root"



text \<open>
  What holds of the local variables each time the loop condition is evaluated, for a
  traversal started at \<open>root\<close>.
\<close>

definition bfs_inv :: "world \<Rightarrow> string \<Rightarrow> bfs_state \<Rightarrow> bool" where
  "bfs_inv w root st \<longleftrightarrow>
     (\<forall>k. seen st k \<longleftrightarrow> k \<in> set (queried st)) \<and>
     distinct (queried st) \<and>
     set (toProcess st) \<subseteq> reachable w root \<and>
     set (queried st) \<subseteq> reachable w root \<and>
     dependencies st = map_of (rev (concat (map (directDeps w) (queried st)))) \<and>
     (if queried st = [] then toProcess st = [root] else hd (queried st) = root) \<and>
     (\<forall>k \<in> set (queried st).
        fst ` set (directDeps w k) \<subseteq> set (queried st) \<union> set (toProcess st))"

section \<open>The semantic-version library\<close>

text \<open>
  \<^verbatim>\<open>github.com/Masterminds/semver/v3\<close> is imported by two of the programs and is not
  part of the repository. The four functions the source calls are parameters:
  \<^verbatim>\<open>semver.NewVersion\<close> and \<^verbatim>\<open>semver.NewConstraint\<close> (\<open>None\<close> for \<^verbatim>\<open>err != nil\<close>),
  \<^verbatim>\<open>Constraints.Check\<close> and \<^verbatim>\<open>Version.Compare\<close>.
\<close>

record ('v, 'c) semver =
  NewVersion :: "string \<Rightarrow> 'v option"
  NewConstraint :: "string \<Rightarrow> 'c option"
  Check :: "'c \<Rightarrow> 'v \<Rightarrow> bool"
  Compare :: "'v \<Rightarrow> 'v \<Rightarrow> int"

section \<open>Range membership and version comparison, as each program writes them\<close>

text \<open>\<^verbatim>\<open>strings.Compare\<close>: bytewise lexicographic comparison.\<close>

fun stringsCompare :: "string \<Rightarrow> string \<Rightarrow> int" where
  "stringsCompare [] [] = 0"
| "stringsCompare [] (b # bs) = - 1"
| "stringsCompare (a # as) [] = 1"
| "stringsCompare (a # as) (b # bs) =
     (if (of_char a :: nat) < of_char b then - 1
      else if (of_char b :: nat) < of_char a then 1
      else stringsCompare as bs)"

text \<open>\<^verbatim>\<open>strings.Contains(s, substr)\<close>: \<open>substr\<close> occurs in \<open>s\<close> as a contiguous block.\<close>

fun hasPrefix :: "string \<Rightarrow> string \<Rightarrow> bool" where
  "hasPrefix s [] = True"
| "hasPrefix [] (b # bs) = False"
| "hasPrefix (a # as) (b # bs) = (a = b \<and> hasPrefix as bs)"

fun stringsContains :: "string \<Rightarrow> string \<Rightarrow> bool" where
  "stringsContains [] substr = hasPrefix [] substr"
| "stringsContains (a # as) substr = (hasPrefix (a # as) substr \<or> stringsContains as substr)"

text \<open>The program that writes \<^verbatim>\<open>-latest-all.json\<close> (it also holds \<^verbatim>\<open>getAllDependencies\<close>).\<close>

definition isVersionInRange :: "('v, 'c) semver \<Rightarrow> string \<Rightarrow> string \<Rightarrow> bool" where
  "isVersionInRange lib version versionRange =
     (case NewConstraint lib versionRange of
        None \<Rightarrow> False
      | Some r \<Rightarrow>
          (case NewVersion lib version of
             None \<Rightarrow> False
           | Some v \<Rightarrow> Check lib r v))"

definition compareVersions :: "('v, 'c) semver \<Rightarrow> string \<Rightarrow> string \<Rightarrow> int" where
  "compareVersions lib v1 v2 =
     (case NewVersion lib v1 of
        None \<Rightarrow> 0
      | Some v1Ver \<Rightarrow>
          (case NewVersion lib v2 of
             None \<Rightarrow> 0
           | Some v2Ver \<Rightarrow> Compare lib v1Ver v2Ver))"

text \<open>
  \<^verbatim>\<open>get_dependencies/main.go\<close> has the same \<^verbatim>\<open>isVersionInRange\<close>; its
  \<^verbatim>\<open>compareVersions\<close> is, under the comment \<^verbatim>\<open>// Implement version comparison logic here.\<close>,
\<close>

definition compareVersions_main :: "string \<Rightarrow> string \<Rightarrow> int" where
  "compareVersions_main v1 v2 = stringsCompare v1 v2"

text \<open>
  The resolver program without a configuration file (it writes into the fixed directory
  \<^verbatim>\<open>testdata\<close> and does not import the library) has the same \<^verbatim>\<open>compareVersions\<close> as
  \<^verbatim>\<open>get_dependencies/main.go\<close>; its \<^verbatim>\<open>isVersionInRange\<close> is, under the comment
  \<^verbatim>\<open>// This function should use a library or implement logic to properly parse and match version ranges.\<close>,
\<close>

definition isVersionInRange_contains :: "string \<Rightarrow> string \<Rightarrow> bool" where
  "isVersionInRange_contains version versionRange = stringsContains versionRange version"

section \<open>getLatestVersionForRange\<close>

text \<open>
  The three programs share the text of \<^verbatim>\<open>getLatestVersionForRange\<close>; each calls its own
  \<^verbatim>\<open>isVersionInRange\<close> and \<^verbatim>\<open>compareVersions\<close>, which are the first two arguments here.
  \<open>selectLatest\<close> is the body of the loop over the published versions.
\<close>

definition selectLatest :: "(string \<Rightarrow> string \<Rightarrow> bool) \<Rightarrow> (string \<Rightarrow> string \<Rightarrow> int) \<Rightarrow> string \<Rightarrow> string \<Rightarrow> string \<Rightarrow> string" where
  "selectLatest inRange cmp versionRange version latestVersion =
     (if inRange version versionRange
      then (if latestVersion = [] \<or> cmp version latestVersion > 0 then version else latestVersion)
      else latestVersion)"

definition getLatestVersionForRangeWith :: "(string \<Rightarrow> string \<Rightarrow> bool) \<Rightarrow> (string \<Rightarrow> string \<Rightarrow> int) \<Rightarrow> world \<Rightarrow> string \<Rightarrow> string \<Rightarrow> error + string" where
  "getLatestVersionForRangeWith inRange cmp w packageName versionRange =
     (case npm_view_versions w packageName of
        Inl err \<Rightarrow> Inl err
      | Inr output \<Rightarrow>
          (case unmarshal_versions w output of
             Inl err \<Rightarrow> Inl err
           | Inr versions \<Rightarrow>
               (let latestVersion = fold (selectLatest inRange cmp versionRange) versions []
                in if latestVersion = []
                   then Inl (NoVersionFound packageName versionRange)
                   else Inr latestVersion)))"

definition getLatestVersionForRange :: "('v, 'c) semver \<Rightarrow> world \<Rightarrow> string \<Rightarrow> string \<Rightarrow> error + string" where
  "getLatestVersionForRange lib =
     getLatestVersionForRangeWith (isVersionInRange lib) (compareVersions lib)"

definition getLatestVersionForRange_main :: "('v, 'c) semver \<Rightarrow> world \<Rightarrow> string \<Rightarrow> string \<Rightarrow> error + string" where
  "getLatestVersionForRange_main lib =
     getLatestVersionForRangeWith (isVersionInRange lib) compareVersions_main"

definition getLatestVersionForRange_contains :: "world \<Rightarrow> string \<Rightarrow> string \<Rightarrow> error + string" where
  "getLatestVersionForRange_contains =
     getLatestVersionForRangeWith isVersionInRange_contains compareVersions_main"

section \<open>saveLatestVersionsToFile\<close>

text \<open>
  \<^verbatim>\<open>PackageInfo\<close>. Its \<^verbatim>\<open>Dependencies\<close> field is a Go map: where the source iterates over
  it, the model holds its entries as a list in iteration order; where the source only
  writes to it, the model holds a map.
\<close>

record 'm PackageInfo =
  Name :: string
  Version :: string
  Dependencies :: 'm

text \<open>A file is absent, created and still empty, or holds an encoded \<^verbatim>\<open>PackageInfo\<close>.\<close>

datatype file_content =
    Truncated
  | Encoded "(string \<rightharpoonup> string) PackageInfo"

type_synonym files = "string \<rightharpoonup> file_content"

text \<open>The loop that fills \<^verbatim>\<open>latestVersions\<close>, leaving at the first failed resolution.\<close>

fun resolveEntries :: "(string \<Rightarrow> string \<Rightarrow> error + string) \<Rightarrow> (string \<times> string) list \<Rightarrow> (string \<rightharpoonup> string) \<Rightarrow> error + (string \<rightharpoonup> string)" where
  "resolveEntries resolve [] latestVersions = Inr latestVersions"
| "resolveEntries resolve ((dep, versionRange) # rest) latestVersions =
     (case resolve dep versionRange of
        Inl err \<Rightarrow> Inl (FetchLatestError dep err)
      | Inr latestVersion \<Rightarrow>
          resolveEntries resolve rest (latestVersions(dep \<mapsto> latestVersion)))"

definition saveLatestVersionsToFileWith :: "(string \<Rightarrow> string \<Rightarrow> error + string) \<Rightarrow> world \<Rightarrow> string \<Rightarrow> ((string \<times> string) list) PackageInfo \<Rightarrow> files \<Rightarrow> error option \<times> files" where
  "saveLatestVersionsToFileWith resolve w filePath packageInfo fs =
     (case resolveEntries resolve (Dependencies packageInfo) Map.empty of
        Inl err \<Rightarrow> (Some err, fs)
      | Inr latestVersions \<Rightarrow>
          (let latestPackageInfo =
                 \<lparr>Name = Name packageInfo, Version = Version packageInfo,
                  Dependencies = latestVersions\<rparr>
           in if \<not> os_create w filePath then (Some CreateFileError, fs)
              else if \<not> encode_ok w filePath then (Some WriteJsonError, fs(filePath \<mapsto> Truncated))
              else (None, fs(filePath \<mapsto> Encoded latestPackageInfo))))"

definition saveLatestVersionsToFile :: "('v, 'c) semver \<Rightarrow> world \<Rightarrow> string \<Rightarrow> ((string \<times> string) list) PackageInfo \<Rightarrow> files \<Rightarrow> error option \<times> files" where
  "saveLatestVersionsToFile lib w =
     saveLatestVersionsToFileWith (getLatestVersionForRange lib w) w"

definition saveLatestVersionsToFile_main :: "('v, 'c) semver \<Rightarrow> world \<Rightarrow> string \<Rightarrow> ((string \<times> string) list) PackageInfo \<Rightarrow> files \<Rightarrow> error option \<times> files" where
  "saveLatestVersionsToFile_main lib w =
     saveLatestVersionsToFileWith (getLatestVersionForRange_main lib w) w"

section \<open>A fragment of the semantic-version library for concrete runs\<close>

text \<open>
  The part of the library's behaviour that the concrete runs below rely on: versions of
  the form \<^verbatim>\<open>MAJOR.MINOR.PATCH\<close> in decimal digits, compared numerically field by
  field, and the two range forms \<^verbatim>\<open>>=V\<close> and \<^verbatim>\<open>^V\<close> (from \<open>V\<close> up to, and without, the
  next change of the leftmost non-zero field). Every other string is refused here; the
  strings refused in the runs below (\<^verbatim>\<open>not-a-range\<close>, \<^verbatim>\<open>not-a-version\<close>) are refused
  by the library too. The general theorems are about every library, not about this one.
\<close>

definition digitOf :: "char \<Rightarrow> nat option" where
  "digitOf c = (let n = (of_char c :: nat) in if 48 \<le> n \<and> n \<le> 57 then Some (n - 48) else None)"

fun parseDigits :: "string \<Rightarrow> nat \<Rightarrow> nat option" where
  "parseDigits [] acc = Some acc"
| "parseDigits (c # cs) acc =
     (case digitOf c of None \<Rightarrow> None | Some d \<Rightarrow> parseDigits cs (10 * acc + d))"

definition parseNumber :: "string \<Rightarrow> nat option" where
  "parseNumber s = (if s = [] then None else parseDigits s 0)"

fun splitDots :: "string \<Rightarrow> string list" where
  "splitDots [] = [[]]"
| "splitDots (c # cs) =
     (if c = CHR ''.'' then [] # splitDots cs
      else (case splitDots cs of [] \<Rightarrow> [[c]] | part # parts \<Rightarrow> (c # part) # parts))"

type_synonym triple = "nat \<times> nat \<times> nat"

definition parseTriple :: "string \<Rightarrow> triple option" where
  "parseTriple s =
     (case map parseNumber (splitDots s) of
        [Some major, Some minor, Some patch] \<Rightarrow> Some (major, minor, patch)
      | _ \<Rightarrow> None)"

definition compareTriple :: "triple \<Rightarrow> triple \<Rightarrow> int" where
  "compareTriple a b =
     (case a of (a1, a2, a3) \<Rightarrow> case b of (b1, b2, b3) \<Rightarrow>
        if a1 < b1 then - 1 else if b1 < a1 then 1
        else if a2 < b2 then - 1 else if b2 < a2 then 1
        else if a3 < b3 then - 1 else if b3 < a3 then 1 else 0)"

datatype comparator = AtLeast triple | Caret triple

definition parseComparator :: "string \<Rightarrow> comparator option" where
  "parseComparator s =
     (if take 2 s = ''>='' then map_option AtLeast (parseTriple (drop 2 s))
      else if take 1 s = ''^'' then map_option Caret (parseTriple (drop 1 s))
      else None)"

definition caretBound :: "triple \<Rightarrow> triple" where
  "caretBound t =
     (case t of (major, minor, patch) \<Rightarrow>
        if 0 < major then (major + 1, 0, 0)
        else if 0 < minor then (0, minor + 1, 0)
        else (0, 0, patch + 1))"

fun checkComparator :: "comparator \<Rightarrow> triple \<Rightarrow> bool" where
  "checkComparator (AtLeast t) v = (0 \<le> compareTriple v t)"
| "checkComparator (Caret t) v = (0 \<le> compareTriple v t \<and> compareTriple v (caretBound t) < 0)"

definition semverFragment :: "(triple, comparator) semver" where
  "semverFragment =
     \<lparr>NewVersion = parseTriple, NewConstraint = parseComparator,
      Check = checkComparator, Compare = compareTriple\<rparr>"

section \<open>Registries for concrete runs\<close>

text \<open>
  A \<open>world\<close> from four tables: the output of \<^verbatim>\<open>npm view k dependencies --json\<close> and of
  \<^verbatim>\<open>npm view k versions --json\<close> for each key \<open>k\<close> (the command fails for a key that
  is not listed), and what \<^verbatim>\<open>json.Unmarshal\<close> decodes each output to (it fails for an
  output that is not listed). The file can always be created and written.
\<close>

definition fixture :: "(string \<times> string) list \<Rightarrow> (string \<times> (string \<times> string) list) list \<Rightarrow> (string \<times> string) list \<Rightarrow> (string \<times> string list) list \<Rightarrow> world" where
  "fixture depsOutput depsJson versionsOutput versionsJson =
     \<lparr>npm_view_dependencies =
        (\<lambda>k. case map_of depsOutput k of None \<Rightarrow> Inl (CmdError k) | Some out \<Rightarrow> Inr out),
      npm_view_versions =
        (\<lambda>k. case map_of versionsOutput k of None \<Rightarrow> Inl (CmdError k) | Some out \<Rightarrow> Inr out),
      unmarshal_deps =
        (\<lambda>s. case map_of depsJson s of None \<Rightarrow> Inl (JsonError s) | Some ds \<Rightarrow> Inr ds),
      unmarshal_versions =
        (\<lambda>s. case map_of versionsJson s of None \<Rightarrow> Inl (JsonError s) | Some vs \<Rightarrow> Inr vs),
      os_create = (\<lambda>_. True),
      encode_ok = (\<lambda>_. True)\<rparr>"

text \<open>A package that declares itself: \<^verbatim>\<open>app@1.0.0\<close> and \<^verbatim>\<open>app\<close> both list \<^verbatim>\<open>app\<close>.\<close>

definition selfRefWorld :: world where
  "selfRefWorld =
     fixture
       [(''app@1.0.0'', ''{\"app\":\"^1.0.0\"}''), (''app'', ''{\"app\":\"^1.0.0\"}'')]
       [(''{\"app\":\"^1.0.0\"}'', [(''app'', ''^1.0.0'')])]
       [] []"


text \<open>
  Two parents of \<^verbatim>\<open>x\<close>: \<^verbatim>\<open>app@1.0.0\<close> needs \<^verbatim>\<open>a\<close> and \<^verbatim>\<open>b\<close>; \<^verbatim>\<open>a\<close> needs \<^verbatim>\<open>x\<close> in
  \<^verbatim>\<open>^1.0.0\<close>, \<^verbatim>\<open>b\<close> needs \<^verbatim>\<open>x\<close> in \<^verbatim>\<open>^2.0.0\<close>; \<^verbatim>\<open>x\<close> prints nothing.
\<close>

definition twoParentsWorld :: world where
  "twoParentsWorld =
     fixture
       [(''app@1.0.0'', ''{\"a\":\"^1.0.0\",\"b\":\"^1.0.0\"}''),
        (''a'', ''{\"x\":\"^1.0.0\"}''), (''b'', ''{\"x\":\"^2.0.0\"}''), (''x'', [])]
       [(''{\"a\":\"^1.0.0\",\"b\":\"^1.0.0\"}'', [(''a'', ''^1.0.0''), (''b'', ''^1.0.0'')]),
        (''{\"x\":\"^1.0.0\"}'', [(''x'', ''^1.0.0'')]),
        (''{\"x\":\"^2.0.0\"}'', [(''x'', ''^2.0.0'')]),
        (''{}'', [])]
       [] []"

text \<open>A leaf whose query prints \<^verbatim>\<open>null\<close>.\<close>

definition leafWorld :: world where
  "leafWorld = fixture [(''leaf'', ''null'')] [(''{}'', [])] [] []"

definition leafState :: bfs_state where
  "leafState =
     \<lparr>dependencies = [''leaf'' \<mapsto> ''^1.0.0''],
      toProcess = [''leaf'', ''other''],
      seen = (\<lambda>k. k = ''app@1.0.0''),
      queried = [''app@1.0.0'']\<rparr>"

text \<open>The published versions of the examples of the specification.\<close>

definition versionsWorld :: world where
  "versionsWorld =
     fixture [] []
       [(''pkg'', ''[\"9.0.0\",\"10.0.0\"]''),
        (''lib'', ''[\"1.0.0\",\"1.2.0\",\"1.9.9\",\"2.0.0\"]''),
        (''old'', ''[\"1.0.0\"]''),
        (''odd'', ''[\"1.0.0\",\"not-a-version\",\"1.2.0\"]'')]
       [(''[\"9.0.0\",\"10.0.0\"]'', [''9.0.0'', ''10.0.0'']),
        (''[\"1.0.0\",\"1.2.0\",\"1.9.9\",\"2.0.0\"]'', [''1.0.0'', ''1.2.0'', ''1.9.9'', ''2.0.0'']),
        (''[\"1.0.0\"]'', [''1.0.0'']),
        (''[\"1.0.0\",\"not-a-version\",\"1.2.0\"]'', [''1.0.0'', ''not-a-version'', ''1.2.0''])]"

text \<open>A closure of three entries; the published versions of \<^verbatim>\<open>old\<close> do not reach \<^verbatim>\<open>^2.0.0\<close>.\<close>

definition threeEntries :: "((string \<times> string) list) PackageInfo" where
  "threeEntries =
     \<lparr>Name = ''app'', Version = ''1.0.0'',
      Dependencies = [(''pkg'', ''>=0.0.0''), (''old'', ''^2.0.0''), (''lib'', ''^1.0.0'')]\<rparr>"

section \<open>The traversal: loop rules and the loop invariant\<close>

text \<open>
  Two rules for the loop: an invariant kept by every iteration holds of what the loop
  returns, and a loop whose iterations descend in a well-founded relation returns.
\<close>

lemma bfsLoop_rule:
  assumes "bfsLoop w st = Some r" and "I st"
    and step: "\<And>s s'. I s \<Longrightarrow> loopBody w s = Continue s' \<Longrightarrow> I s'"
    and fin: "\<And>s res qs. I s \<Longrightarrow> loopBody w s = Return res qs \<Longrightarrow> Q (res, qs)"
  shows "Q r"
proof -
  have "w = w \<longrightarrow> I st \<longrightarrow> Q r"
  proof (rule bfsLoop.raw_induct[where P = "\<lambda>w' s y. w' = w \<longrightarrow> I s \<longrightarrow> Q y"])
    show "bfsLoop w st = Some r" by fact
  next
    fix f :: "world \<Rightarrow> bfs_state \<Rightarrow> ((error + (string \<rightharpoonup> string)) \<times> string list) option"
    fix w' s y
    assume IH: "\<And>w'' s' y'. f w'' s' = Some y' \<Longrightarrow> w'' = w \<longrightarrow> I s' \<longrightarrow> Q y'"
    assume body: "(case loopBody w' s of Continue st' \<Rightarrow> f w' st' | Return res qs \<Rightarrow> Some (res, qs)) = Some y"
    show "w' = w \<longrightarrow> I s \<longrightarrow> Q y"
    proof (intro impI)
      assume eq: "w' = w" and inv: "I s"
      show "Q y"
      proof (cases "loopBody w s")
        case (Continue s')
        with body eq have "f w s' = Some y" by simp
        from IH[OF this] step[OF inv Continue] show ?thesis by simp
      next
        case (Return res qs)
        with body eq have "y = (res, qs)" by simp
        with fin[OF inv Return] show ?thesis by simp
      qed
    qed
  qed
  with assms(2) show ?thesis by blast
qed


lemma fold_addDep_seen [simp]: "seen (fold addDep ds st) = seen st"
  by (induction ds arbitrary: st) (auto simp: addDep_def split: prod.splits)

lemma fold_addDep_queried [simp]: "queried (fold addDep ds st) = queried st"
  by (induction ds arbitrary: st) (auto simp: addDep_def split: prod.splits)

lemma fold_addDep_dependencies:
  "dependencies (fold addDep ds st) = dependencies st ++ map_of (rev ds)"
  by (induction ds arbitrary: st) (auto simp: addDep_def split: prod.splits)

lemma fold_addDep_toProcess:
  "toProcess (fold addDep ds st) = toProcess st @ filter (\<lambda>d. \<not> seen st d) (map fst ds)"
  by (induction ds arbitrary: st) (auto simp: addDep_def split: prod.splits)


lemma loopBody_Continue:
  assumes "loopBody w s = Continue s'"
  obtains (skip) current rest where "toProcess s = current # rest" "seen s current"
      "s' = s\<lparr>toProcess := rest\<rparr>"
  | (visit) current rest out where "toProcess s = current # rest" "\<not> seen s current"
      "npm_view_dependencies w current = Inr out"
      "unmarshal_deps w (normalizeOutput out) = Inr (directDeps w current)"
      "s' = fold addDep (directDeps w current)
              (s\<lparr>toProcess := rest, seen := (seen s)(current := True),
                 queried := queried s @ [current]\<rparr>)"
  using assms
  by (auto simp: loopBody_def directDeps_def split: list.splits if_splits sum.splits)

lemma loopBody_Return:
  assumes "loopBody w s = Return res qs"
  obtains (finished) "toProcess s = []" "res = Inr (dependencies s)" "qs = queried s"
  | (failed) current rest err where "toProcess s = current # rest" "\<not> seen s current"
      "res = Inl err" "qs = queried s @ [current]"
  using assms
  by (auto simp: loopBody_def split: list.splits if_splits sum.splits)

lemma bfs_inv_init: "bfs_inv w (rootKey n v) (initState n v)"
  by (simp add: bfs_inv_def initState_def reachable.root)

lemma bfs_invD:
  assumes "bfs_inv w root st"
  shows "seen st k \<longleftrightarrow> k \<in> set (queried st)"
    and "distinct (queried st)"
    and "set (toProcess st) \<subseteq> reachable w root"
    and "set (queried st) \<subseteq> reachable w root"
    and "dependencies st = map_of (rev (concat (map (directDeps w) (queried st))))"
    and "if queried st = [] then toProcess st = [root] else hd (queried st) = root"
    and "\<forall>k \<in> set (queried st).
           fst ` set (directDeps w k) \<subseteq> set (queried st) \<union> set (toProcess st)"
  using assms unfolding bfs_inv_def by blast+

lemma bfs_inv_step:
  assumes "bfs_inv w root s" and "loopBody w s = Continue s'"
  shows "bfs_inv w root s'"
  using assms(2)
proof (cases rule: loopBody_Continue)
  case (skip current rest)
  note inv = bfs_invD[OF assms(1)]
  have cur_q: "current \<in> set (queried s)"
    using inv(1) skip(2) by simp
  have closed: "\<forall>k \<in> set (queried s).
      fst ` set (directDeps w k) \<subseteq> set (queried s) \<union> set rest"
    using inv(7) cur_q skip(1) by auto
  have nonempty: "queried s \<noteq> []"
    using cur_q by auto
  show ?thesis
    unfolding bfs_inv_def
  proof (intro conjI)
    show "\<forall>k. seen s' k = (k \<in> set (queried s'))"
      using inv(1) skip(3) by simp
    show "distinct (queried s')"
      using inv(2) skip(3) by simp
    show "set (toProcess s') \<subseteq> reachable w root"
      using inv(3) skip(1,3) by simp
    show "set (queried s') \<subseteq> reachable w root"
      using inv(4) skip(3) by simp
    show "dependencies s' = map_of (rev (concat (map (directDeps w) (queried s'))))"
      using inv(5) skip(3) by simp
    show "if queried s' = [] then toProcess s' = [root] else hd (queried s') = root"
      using inv(6) nonempty skip(3) by simp
    show "\<forall>k \<in> set (queried s').
        fst ` set (directDeps w k) \<subseteq> set (queried s') \<union> set (toProcess s')"
      using closed skip(3) by simp
  qed
next
  case (visit current rest out)
  note inv = bfs_invD[OF assms(1)]
  from inv(3) visit(1) have cur: "current \<in> reachable w root"
    by simp
  have deps: "fst ` set (directDeps w current) \<subseteq> reachable w root"
    using cur by (auto intro: reachable.dep)
  have cur_new: "current \<notin> set (queried s)"
    using inv(1) visit(2) by simp
  let ?s0 = "s\<lparr>toProcess := rest, seen := (seen s)(current := True),
                queried := queried s @ [current]\<rparr>"
  have q': "queried s' = queried s @ [current]"
    and seen': "seen s' = (seen s)(current := True)"
    and tp': "toProcess s' = rest @ filter (\<lambda>d. \<not> seen ?s0 d) (map fst (directDeps w current))"
    and deps': "dependencies s' = dependencies s ++ map_of (rev (directDeps w current))"
    using visit(5) by (simp_all add: fold_addDep_toProcess fold_addDep_dependencies)
  show ?thesis
    unfolding bfs_inv_def
  proof (intro conjI)
    show "\<forall>k. seen s' k = (k \<in> set (queried s'))"
      using inv(1) by (auto simp: q' seen')
    show "distinct (queried s')"
      using inv(2) cur_new by (simp add: q')
    show "set (toProcess s') \<subseteq> reachable w root"
      using inv(3) visit(1) deps by (auto simp: tp')
    show "set (queried s') \<subseteq> reachable w root"
      using inv(4) cur by (simp add: q')
    show "dependencies s' = map_of (rev (concat (map (directDeps w) (queried s'))))"
      using inv(5) by (simp add: q' deps' rev_concat)
    show "if queried s' = [] then toProcess s' = [root] else hd (queried s') = root"
      using inv(6) visit(1) by (auto simp: q' split: if_splits)
    show "\<forall>k \<in> set (queried s').
        fst ` set (directDeps w k) \<subseteq> set (queried s') \<union> set (toProcess s')"
    proof (intro ballI subsetI)
      fix k d assume k: "k \<in> set (queried s')" and d: "d \<in> fst ` set (directDeps w k)"
      show "d \<in> set (queried s') \<union> set (toProcess s')"
      proof (cases "k = current")
        case True
        with d inv(1) show ?thesis by (auto simp: q' tp')
      next
        case False
        with k have "k \<in> set (queried s)" by (simp add: q')
        with inv(7) d have "d \<in> set (queried s) \<union> set (current # rest)"
          using visit(1) by auto
        then show ?thesis by (auto simp: q' tp')
      qed
    qed
  qed
qed


lemma bfs_inv_closed:
  assumes "bfs_inv w root s" and "toProcess s = []"
  shows "reachable w root \<subseteq> set (queried s)"
proof
  note inv = bfs_invD[OF assms(1)]
  fix k assume "k \<in> reachable w root"
  then show "k \<in> set (queried s)"
  proof (induction rule: reachable.induct)
    case root
    from inv(6) assms(2) have "queried s \<noteq> []" "hd (queried s) = root"
      by (auto split: if_splits)
    then show ?case by (metis hd_in_set)
  next
    case (dep k d r)
    from dep(2,3) have "d \<in> fst ` set (directDeps w k)" by force
    with inv(7) dep(3) assms(2) show ?case by auto
  qed
qed

lemma bfsLoop_result:
  assumes "bfsLoop w st = Some (res, qs)" and "bfs_inv w root st"
  shows "distinct qs \<and> set qs \<subseteq> reachable w root \<and> qs \<noteq> [] \<and> hd qs = root \<and>
         (\<forall>m. res = Inr m \<longrightarrow>
            m = map_of (rev (concat (map (directDeps w) qs))) \<and> set qs = reachable w root)"
proof -
  let ?Q = "\<lambda>r. distinct (snd r) \<and> set (snd r) \<subseteq> reachable w root \<and> snd r \<noteq> [] \<and>
      hd (snd r) = root \<and>
      (\<forall>m. fst r = Inr m \<longrightarrow>
         m = map_of (rev (concat (map (directDeps w) (snd r)))) \<and>
         set (snd r) = reachable w root)"
  have "?Q (res, qs)"
  proof (rule bfsLoop_rule[where I = "bfs_inv w root" and Q = ?Q, OF assms])
    fix s s' assume "bfs_inv w root s" "loopBody w s = Continue s'"
    then show "bfs_inv w root s'" by (rule bfs_inv_step)
  next
    fix s res qs assume I: "bfs_inv w root s" and ret: "loopBody w s = Return res qs"
    note inv = bfs_invD[OF I]
    from ret show "?Q (res, qs)"
    proof (cases rule: loopBody_Return)
      case finished
      have ne: "queried s \<noteq> []" "hd (queried s) = root"
        using inv(6) finished(1) by (auto split: if_splits)
      have "set (queried s) = reachable w root"
        using bfs_inv_closed[OF I finished(1)] inv(4) by auto
      with ne inv(2,5) finished show ?thesis by simp
    next
      case (failed current rest err)
      have "current \<notin> set (queried s)" using inv(1) failed(2) by simp
      moreover have "current \<in> reachable w root" using inv(3) failed(1) by simp
      moreover have "hd (queried s @ [current]) = root"
        using inv(6) failed(1) by (auto split: if_splits)
      ultimately show ?thesis using inv(2,4) failed(3,4) by simp
    qed
  qed
  then show ?thesis by simp
qed


text \<open>
  The loop returns a value exactly when some number of iterations reaches \<open>Return\<close> with
  it, and the invariant holds after every number of iterations.
\<close>

lemma bfsRun_returns_bfsLoop:
  assumes "bfsRun k w st = Return res qs"
  shows "bfsLoop w st = Some (res, qs)"
  using assms
proof (induction k arbitrary: st)
  case 0
  then show ?case by simp
next
  case (Suc k)
  show ?case
  proof (cases "loopBody w st")
    case (Continue st')
    with Suc.prems have "bfsRun k w st' = Return res qs" by simp
    from Suc.IH[OF this] Continue show ?thesis by (subst bfsLoop.simps) simp
  next
    case (Return res' qs')
    with Suc.prems show ?thesis by (subst bfsLoop.simps) simp
  qed
qed

lemma bfsLoop_returns_bfsRun:
  assumes "bfsLoop w st = Some (res, qs)"
  shows "\<exists>k. bfsRun k w st = Return res qs"
proof -
  have "\<exists>k. bfsRun k w st = Return (fst (res, qs)) (snd (res, qs))"
  proof (rule bfsLoop.raw_induct[where P = "\<lambda>w s y. \<exists>k. bfsRun k w s = Return (fst y) (snd y)"])
    show "bfsLoop w st = Some (res, qs)" by fact
  next
    fix f :: "world \<Rightarrow> bfs_state \<Rightarrow> ((error + (string \<rightharpoonup> string)) \<times> string list) option"
    fix w s y
    assume IH: "\<And>w' s' y'. f w' s' = Some y' \<Longrightarrow> \<exists>k. bfsRun k w' s' = Return (fst y') (snd y')"
    assume body: "(case loopBody w s of Continue st' \<Rightarrow> f w st' | Return res qs \<Rightarrow> Some (res, qs)) = Some y"
    show "\<exists>k. bfsRun k w s = Return (fst y) (snd y)"
    proof (cases "loopBody w s")
      case (Continue s')
      with body have "f w s' = Some y" by simp
      from IH[OF this] obtain k where "bfsRun k w s' = Return (fst y) (snd y)" by blast
      with Continue have "bfsRun (Suc k) w s = Return (fst y) (snd y)" by simp
      then show ?thesis by blast
    next
      case (Return res' qs')
      with body have "bfsRun (Suc 0) w s = Return (fst y) (snd y)" by auto
      then show ?thesis by blast
    qed
  qed
  then show ?thesis by simp
qed

lemma bfsRun_inv:
  assumes "bfs_inv w root st" and "bfsRun k w st = Continue st'"
  shows "bfs_inv w root st'"
  using assms
proof (induction k arbitrary: st)
  case 0
  then show ?case by simp
next
  case (Suc k)
  from Suc.prems(2) obtain s1 where body: "loopBody w st = Continue s1" and rest: "bfsRun k w s1 = Continue st'"
    by (cases "loopBody w st") auto
  from Suc.IH[OF bfs_inv_step[OF Suc.prems(1) body] rest] show ?case .
qed

section \<open>The traversal: what it returns\<close>

text \<open>
  Whenever \<^verbatim>\<open>getAllDependencies\<close> returns, with a map or with an error: no key was
  queried twice, every queried key is reachable from the root key, and the root key was
  queried first. When it returns a map, every reachable key was queried, and the map holds
  for each name the range written last.
\<close>

lemma getAllDependencies_result:
  assumes "getAllDependencies w n v = Some (res, qs)"
  shows "distinct qs \<and> set qs \<subseteq> reachable w (rootKey n v) \<and> qs \<noteq> [] \<and> hd qs = rootKey n v \<and>
         (\<forall>m. res = Inr m \<longrightarrow>
            m = map_of (rev (concat (map (directDeps w) qs))) \<and>
            set qs = reachable w (rootKey n v))"
  using assms bfsLoop_result[OF _ bfs_inv_init] unfolding getAllDependencies_def by blast


lemma map_of_rev_concat_last:
  assumes "\<forall>k \<in> set post. X \<notin> fst ` set (D k)" and "map_of (rev (D B)) X = Some r"
  shows "map_of (rev (concat (map D (pre @ B # post)))) X = Some r"
proof -
  have "X \<notin> fst ` set (rev (concat (map D post)))"
    using assms(1) by auto
  then have none: "map_of (rev (concat (map D post))) X = None"
    using map_of_eq_None_iff by metis
  have "rev (concat (map D (pre @ B # post))) =
        rev (concat (map D post)) @ rev (D B) @ rev (concat (map D pre))"
    by simp
  then show ?thesis
    using none assms(2) by (simp add: map_add_def)
qed


subsection \<open>C3: one query per key\<close>

text \<open>
  C3, as stated, fails for a root that declares its own name. The root is queued and
  marked as \<^verbatim>\<open>app@1.0.0\<close>; its dependency is looked up in \<open>seen\<close> as \<^verbatim>\<open>app\<close>, which
  is not marked, so \<^verbatim>\<open>app\<close> is queued, is not marked at its first pop either, and is
  queried: the package is queried twice.
\<close>

theorem self_reference_queried_again_counterexample:
  "directDeps selfRefWorld (rootKey ''app'' ''1.0.0'') = [(''app'', ''^1.0.0'')] \<and>
   map_option snd (getAllDependencies selfRefWorld ''app'' ''1.0.0'') = Some [''app@1.0.0'', ''app'']"
  by code_simp

text \<open>
  C3, amended: in every traversal, at every iteration, each key (the root's
  \<^verbatim>\<open>name@version\<close> and the bare name of each dependency) has been queried at most once,
  however many parents declare it; so it is when the traversal returns, and then the root
  key was queried first. A root that declares its own name is queried once more under the
  bare name when the traversal returns a map; the visited check absorbs the
  self-reference from then on.
\<close>

theorem each_key_queried_once:
  "(bfsRun k w (initState n v) = Continue st \<longrightarrow> distinct (queried st)) \<and>
   (getAllDependencies w n v = Some (res, qs) \<longrightarrow>
      distinct qs \<and> hd qs = rootKey n v \<and>
      (\<forall>m r. res = Inr m \<longrightarrow> (n, r) \<in> set (directDeps w (rootKey n v)) \<longrightarrow> n \<in> set (tl qs)))"
proof (intro conjI impI)
  assume "bfsRun k w (initState n v) = Continue st"
  from bfsRun_inv[OF bfs_inv_init this] show "distinct (queried st)"
    by (rule bfs_invD(2))
next
  assume run: "getAllDependencies w n v = Some (res, qs)"
  note res = getAllDependencies_result[OF run]
  from res show "distinct qs" by blast
  from res show "hd qs = rootKey n v" by blast
  show "\<forall>m r. res = Inr m \<longrightarrow> (n, r) \<in> set (directDeps w (rootKey n v)) \<longrightarrow> n \<in> set (tl qs)"
  proof (intro allI impI)
    fix m r assume ok: "res = Inr m" and self: "(n, r) \<in> set (directDeps w (rootKey n v))"
    from res ok have "set qs = reachable w (rootKey n v)" by blast
    with self have "n \<in> set qs" by (auto intro: reachable.dep reachable.root)
    moreover have "n \<noteq> hd qs" using res by (auto simp: rootKey_def)
    ultimately show "n \<in> set (tl qs)" using res by (cases qs) auto
  qed
qed

text \<open>C3, amended, on the package that declares itself: two iterations, and the whole run.\<close>

theorem each_key_queried_once_witness:
  "(\<exists>st. bfsRun 2 selfRefWorld (initState ''app'' ''1.0.0'') = Continue st \<and>
      queried st = [''app@1.0.0'', ''app''] \<and> distinct (queried st)) \<and>
   (\<exists>res. getAllDependencies selfRefWorld ''app'' ''1.0.0'' = Some (res, [''app@1.0.0'', ''app'']) \<and>
      distinct [''app@1.0.0'', ''app''] \<and> hd [''app@1.0.0'', ''app''] = rootKey ''app'' ''1.0.0'' \<and>
      (\<forall>m r. res = Inr m \<longrightarrow> (''app'', r) \<in> set (directDeps selfRefWorld (rootKey ''app'' ''1.0.0'')) \<longrightarrow>
         ''app'' \<in> set (tl [''app@1.0.0'', ''app''])))"
proof -
  have "(case bfsRun 2 selfRefWorld (initState ''app'' ''1.0.0'') of
           Continue st \<Rightarrow> Some (queried st) | Return res qs \<Rightarrow> None) = Some [''app@1.0.0'', ''app'']"
    by code_simp
  then obtain st where part: "bfsRun 2 selfRefWorld (initState ''app'' ''1.0.0'') = Continue st"
      "queried st = [''app@1.0.0'', ''app'']"
    by (cases "bfsRun 2 selfRefWorld (initState ''app'' ''1.0.0'')") auto
  have "map_option snd (getAllDependencies selfRefWorld ''app'' ''1.0.0'') = Some [''app@1.0.0'', ''app'']"
    by code_simp
  then obtain res where run: "getAllDependencies selfRefWorld ''app'' ''1.0.0'' = Some (res, [''app@1.0.0'', ''app''])"
    by (cases "getAllDependencies selfRefWorld ''app'' ''1.0.0''") auto
  from each_key_queried_once[of 2 selfRefWorld "''app''" "''1.0.0''" st res "[''app@1.0.0'', ''app'']"]
    part run show ?thesis by blast
qed

subsection \<open>C6: termination and the number of queries\<close>






subsection \<open>C7: the last write wins\<close>

text \<open>
  C7: let a traversal return the map \<open>m\<close> after querying \<open>A\<close> before \<open>B\<close>, where \<open>A\<close>
  declares \<open>X\<close> (with any range \<open>r1\<close>), \<open>B\<close> declares \<open>X\<close> with range \<open>r2\<close>, and no key
  queried after \<open>B\<close> declares \<open>X\<close>. Then the entry of \<open>X\<close> in \<open>m\<close> is \<open>r2\<close>. (The
  entries of one response are those of a Go map, so their names are distinct.)
\<close>

theorem last_write_wins:
  assumes "getAllDependencies w n v = Some (Inr m, qs)"
    and "qs = before @ A # between @ B # after"
    and "(X, r1) \<in> set (directDeps w A)"
    and "(X, r2) \<in> set (directDeps w B)" and "distinct (map fst (directDeps w B))"
    and "\<forall>k \<in> set after. X \<notin> fst ` set (directDeps w k)"
  shows "m X = Some r2"
proof -
  from getAllDependencies_result[OF assms(1)]
  have m: "m = map_of (rev (concat (map (directDeps w) qs)))" by blast
  have "map_of (rev (directDeps w B)) X = Some r2"
    using assms(4,5) by (intro map_of_is_SomeI) (simp_all add: rev_map[symmetric])
  from map_of_rev_concat_last[where D = "directDeps w" and pre = "before @ A # between", OF assms(6) this]
  show ?thesis using m assms(2) by simp
qed

text \<open>C7 on \<^verbatim>\<open>x\<close>, declared as \<^verbatim>\<open>^1.0.0\<close> by \<^verbatim>\<open>a\<close> and as \<^verbatim>\<open>^2.0.0\<close> by \<^verbatim>\<open>b\<close>.\<close>

theorem last_write_wins_witness:
  "\<exists>m. getAllDependencies twoParentsWorld ''app'' ''1.0.0'' = Some (Inr m, [''app@1.0.0'', ''a'', ''b'', ''x'']) \<and>
     (''x'', ''^1.0.0'') \<in> set (directDeps twoParentsWorld ''a'') \<and>
     (''x'', ''^2.0.0'') \<in> set (directDeps twoParentsWorld ''b'') \<and>
     m ''x'' = Some ''^2.0.0''"
proof -
  have "map_option (\<lambda>r. (isl (fst r), snd r)) (getAllDependencies twoParentsWorld ''app'' ''1.0.0'') =
        Some (False, [''app@1.0.0'', ''a'', ''b'', ''x''])"
    by code_simp
  then obtain res where "getAllDependencies twoParentsWorld ''app'' ''1.0.0'' =
      Some (res, [''app@1.0.0'', ''a'', ''b'', ''x''])" and "\<not> isl res"
    by (cases "getAllDependencies twoParentsWorld ''app'' ''1.0.0''") auto
  then obtain m where run: "getAllDependencies twoParentsWorld ''app'' ''1.0.0'' =
      Some (Inr m, [''app@1.0.0'', ''a'', ''b'', ''x''])"
    by (cases res) auto
  have da: "directDeps twoParentsWorld ''a'' = [(''x'', ''^1.0.0'')]" by code_simp
  have db: "directDeps twoParentsWorld ''b'' = [(''x'', ''^2.0.0'')]" by code_simp
  have dx: "directDeps twoParentsWorld ''x'' = []" by code_simp
  have "m ''x'' = Some ''^2.0.0''"
    using last_write_wins[OF run, of "[''app@1.0.0'']" "''a''" "[]" "''b''" "[''x'']" "''x''" "''^1.0.0''" "''^2.0.0''"]
    by (simp add: da db dx)
  with run da db show ?thesis by simp
qed

subsection \<open>C9: a response without dependencies\<close>

text \<open>
  C9: when the key at the front of the queue has not been visited and its query prints
  nothing or \<^verbatim>\<open>null\<close>, the output is replaced by \<^verbatim>\<open>{}\<close> (which \<^verbatim>\<open>json.Unmarshal\<close>
  decodes to the empty map) and the iteration is no error: the traversal goes on, the key
  has no entries, \<open>dependencies\<close> is unchanged and the queue only loses its front.
\<close>

theorem empty_response_adds_nothing:
  assumes "toProcess st = current # rest" and "\<not> seen st current"
    and "npm_view_dependencies w current = Inr out" and "out = [] \<or> out = ''null''"
    and "unmarshal_deps w ''{}'' = Inr []"
  shows "directDeps w current = [] \<and>
         (\<exists>st'. loopBody w st = Continue st' \<and> dependencies st' = dependencies st \<and>
                toProcess st' = rest \<and> queried st' = queried st @ [current])"
  using assms by (auto simp: loopBody_def directDeps_def normalizeOutput_def)

text \<open>C9 on a leaf whose query prints \<^verbatim>\<open>null\<close>, with one more key waiting in the queue.\<close>

theorem empty_response_adds_nothing_witness:
  "directDeps leafWorld ''leaf'' = [] \<and>
   (\<exists>st'. loopBody leafWorld leafState = Continue st' \<and>
      dependencies st' = [''leaf'' \<mapsto> ''^1.0.0''] \<and>
      toProcess st' = [''other''] \<and> queried st' = [''app@1.0.0'', ''leaf''])"
  using empty_response_adds_nothing[of leafState "''leaf''" "[''other'']" leafWorld "''null''"]
  by (simp add: leafState_def leafWorld_def fixture_def)

section \<open>The resolver: helper facts\<close>

text \<open>
  \<^verbatim>\<open>strings.Contains\<close> as modelled is the substring relation; the loop over the published
  versions returns its start value or a version of the list that is in range; the loop
  over the entries stops at the first entry whose resolution fails.
\<close>

lemma hasPrefix_iff: "hasPrefix s sub \<longleftrightarrow> (\<exists>post. s = sub @ post)"
  by (induction s sub rule: hasPrefix.induct) auto

lemma stringsContains_iff: "stringsContains s sub \<longleftrightarrow> (\<exists>pre post. s = pre @ sub @ post)"
proof (induction s)
  case Nil
  then show ?case by (auto simp: hasPrefix_iff)
next
  case (Cons a s)
  show ?case
  proof
    assume "stringsContains (a # s) sub"
    then consider "hasPrefix (a # s) sub" | "stringsContains s sub" by auto
    then show "\<exists>pre post. a # s = pre @ sub @ post"
    proof cases
      case 1
      then obtain post where "a # s = [] @ sub @ post" by (auto simp: hasPrefix_iff)
      then show ?thesis by blast
    next
      case 2
      with Cons obtain pre post where "s = pre @ sub @ post" by blast
      then have "a # s = (a # pre) @ sub @ post" by simp
      then show ?thesis by blast
    qed
  next
    assume "\<exists>pre post. a # s = pre @ sub @ post"
    then obtain pre post where eq: "a # s = pre @ sub @ post" by blast
    show "stringsContains (a # s) sub"
    proof (cases pre)
      case Nil
      with eq have "hasPrefix (a # s) sub" by (auto simp: hasPrefix_iff)
      then show ?thesis by simp
    next
      case (Cons b pre')
      with eq have "s = pre' @ sub @ post" by simp
      with Cons.IH have "stringsContains s sub" by blast
      then show ?thesis by simp
    qed
  qed
qed

lemma selectLatest_cases:
  "selectLatest inRange cmp r v l = l \<or> (selectLatest inRange cmp r v l = v \<and> inRange v r)"
  by (simp add: selectLatest_def)

lemma fold_selectLatest_cases:
  "fold (selectLatest inRange cmp r) vs l = l \<or>
   (fold (selectLatest inRange cmp r) vs l \<in> set vs \<and>
    inRange (fold (selectLatest inRange cmp r) vs l) r)"
proof (induction vs arbitrary: l)
  case Nil
  then show ?case by simp
next
  case (Cons v vs)
  from Cons.IH[of "selectLatest inRange cmp r v l"] selectLatest_cases[of inRange cmp r v l]
  show ?case by auto
qed

lemma fold_selectLatest_none:
  assumes "\<forall>v \<in> set vs. \<not> inRange v r"
  shows "fold (selectLatest inRange cmp r) vs l = l"
  using assms by (induction vs arbitrary: l) (auto simp: selectLatest_def)

lemma fold_selectLatest_filter:
  assumes "\<And>v. \<not> P v \<Longrightarrow> \<not> inRange v r"
  shows "fold (selectLatest inRange cmp r) (filter P vs) l = fold (selectLatest inRange cmp r) vs l"
  using assms by (induction vs arbitrary: l) (auto simp: selectLatest_def)

lemma getLatestVersionForRangeWith_fetched:
  assumes "npm_view_versions w p = Inr out" and "unmarshal_versions w out = Inr vs"
  shows "getLatestVersionForRangeWith inRange cmp w p r =
     (if fold (selectLatest inRange cmp r) vs [] = [] then Inl (NoVersionFound p r)
      else Inr (fold (selectLatest inRange cmp r) vs []))"
  using assms by (simp add: getLatestVersionForRangeWith_def Let_def)

lemma getLatestVersionForRangeWith_Inr:
  assumes "getLatestVersionForRangeWith inRange cmp w p r = Inr best"
  shows "inRange best r \<and> best \<noteq> []"
proof -
  from assms obtain out vs where "npm_view_versions w p = Inr out" "unmarshal_versions w out = Inr vs"
    and best: "best = fold (selectLatest inRange cmp r) vs []" "best \<noteq> []"
    by (auto simp: getLatestVersionForRangeWith_def Let_def split: sum.splits if_splits)
  with fold_selectLatest_cases[of inRange cmp r vs "[]"] show ?thesis by auto
qed

lemma resolveEntries_fails:
  assumes "(dep, r) \<in> set entries" and "resolve dep r = Inl e"
  shows "\<exists>pre d r' e' post. entries = pre @ (d, r') # post \<and> resolve d r' = Inl e' \<and>
           (\<forall>(d0, r0) \<in> set pre. \<exists>v. resolve d0 r0 = Inr v) \<and>
           resolveEntries resolve entries acc = Inl (FetchLatestError d e')"
  using assms
proof (induction entries arbitrary: acc)
  case Nil
  then show ?case by simp
next
  case (Cons x xs)
  obtain d0 r0 where x: "x = (d0, r0)" by (cases x)
  show ?case
  proof (cases "resolve d0 r0")
    case (Inl e0)
    have "x # xs = [] @ (d0, r0) # xs" using x by simp
    moreover have "resolveEntries resolve (x # xs) acc = Inl (FetchLatestError d0 e0)"
      using x Inl by simp
    ultimately show ?thesis using Inl by (metis empty_iff list.set(1) ball_empty)
  next
    case (Inr v0)
    with Cons.prems x have "(dep, r) \<in> set xs" by auto
    from Cons.IH[OF this Cons.prems(2), of "acc(d0 \<mapsto> v0)"]
    obtain pre d r' e' post where *: "xs = pre @ (d, r') # post" "resolve d r' = Inl e'"
      "\<forall>(d0, r0) \<in> set pre. \<exists>v. resolve d0 r0 = Inr v"
      "resolveEntries resolve xs (acc(d0 \<mapsto> v0)) = Inl (FetchLatestError d e')"
      by blast
    have "x # xs = (x # pre) @ (d, r') # post" using * by simp
    moreover have "\<forall>(d1, r1) \<in> set (x # pre). \<exists>v. resolve d1 r1 = Inr v"
      using * x Inr by auto
    moreover have "resolveEntries resolve (x # xs) acc = Inl (FetchLatestError d e')"
      using * x Inr by simp
    ultimately show ?thesis using *(2) by blast
  qed
qed

lemma saveLatestVersionsToFileWith_fails:
  assumes "(dep, r) \<in> set (Dependencies packageInfo)" and "resolve dep r = Inl e"
  shows "\<exists>pre d r' e' post. Dependencies packageInfo = pre @ (d, r') # post \<and>
           resolve d r' = Inl e' \<and>
           (\<forall>(d0, r0) \<in> set pre. \<exists>v. resolve d0 r0 = Inr v) \<and>
           saveLatestVersionsToFileWith resolve w filePath packageInfo fs =
             (Some (FetchLatestError d e'), fs)"
proof -
  from resolveEntries_fails[where resolve = resolve and entries = "Dependencies packageInfo" and acc = Map.empty and dep = dep and r = r and e = e] assms
  obtain pre d r' e' post where *: "Dependencies packageInfo = pre @ (d, r') # post"
    "resolve d r' = Inl e'" "\<forall>(d0, r0) \<in> set pre. \<exists>v. resolve d0 r0 = Inr v"
    "resolveEntries resolve (Dependencies packageInfo) Map.empty = Inl (FetchLatestError d e')"
    by blast
  from *(4) have "saveLatestVersionsToFileWith resolve w filePath packageInfo fs =
             (Some (FetchLatestError d e'), fs)"
    by (simp add: saveLatestVersionsToFileWith_def)
  with *(1,2,3) show ?thesis by blast
qed


lemma compareVersions_parsed:
  assumes "NewVersion lib a = Some va" and "NewVersion lib b = Some vb"
  shows "compareVersions lib a b = Compare lib va vb"
  using assms by (simp add: compareVersions_def)

lemma isVersionInRange_parsed:
  assumes "isVersionInRange lib v r"
  shows "\<exists>c ver. NewConstraint lib r = Some c \<and> NewVersion lib v = Some ver \<and> Check lib c ver"
  using assms by (auto simp: isVersionInRange_def split: option.splits)

lemma fold_selectLatest_maximum:
  assumes refl: "\<And>a. cmp a a \<le> 0"
    and flip: "\<And>a b. inRange a r \<Longrightarrow> inRange b r \<Longrightarrow> 0 < cmp a b \<Longrightarrow> cmp b a \<le> 0"
    and trans: "\<And>a b c. inRange a r \<Longrightarrow> inRange b r \<Longrightarrow> inRange c r \<Longrightarrow>
                  cmp a b \<le> 0 \<Longrightarrow> cmp b c \<le> 0 \<Longrightarrow> cmp a c \<le> 0"
    and empty: "\<not> inRange [] r"
    and start: "l = [] \<or> inRange l r"
  shows "\<forall>v \<in> set vs \<union> (if l = [] then {} else {l}). inRange v r \<longrightarrow>
           cmp v (fold (selectLatest inRange cmp r) vs l) \<le> 0"
  using start
proof (induction vs arbitrary: l)
  case Nil
  then show ?case using refl by simp
next
  case (Cons x xs)
  let ?l' = "selectLatest inRange cmp r x l"
  let ?best = "fold (selectLatest inRange cmp r) xs ?l'"
  have l': "?l' = [] \<or> inRange ?l' r"
    using Cons.prems by (auto simp: selectLatest_def)
  note IH = Cons.IH[OF l']
  have best_range: "?best = ?l' \<or> inRange ?best r"
    using fold_selectLatest_cases[of inRange cmp r xs ?l'] by auto
  have l'_le: "cmp ?l' ?best \<le> 0" if "?l' \<noteq> []"
    using IH that l' by auto
  have best_in: "inRange ?best r" if "?l' \<noteq> []"
    using best_range l' that by auto
  show ?case
  proof (intro ballI impI)
    fix v assume v: "v \<in> set (x # xs) \<union> (if l = [] then {} else {l})" and vr: "inRange v r"
    have "cmp v ?best \<le> 0"
    proof (cases "v \<in> set xs")
      case True
      with IH vr show ?thesis by auto
    next
      case False
      with v have "v = x \<or> (l \<noteq> [] \<and> v = l)" by (auto split: if_splits)
      then have "?l' \<noteq> [] \<and> cmp v ?l' \<le> 0"
      proof
        assume "v = x"
        then show ?thesis using vr empty refl by (auto simp: selectLatest_def not_less)
      next
        assume "l \<noteq> [] \<and> v = l"
        then show ?thesis using vr refl flip[of x l] empty by (auto simp: selectLatest_def)
      qed
      then have ne: "?l' \<noteq> []" and le: "cmp v ?l' \<le> 0" by auto
      from ne l' have "inRange ?l' r" by auto
      from trans[OF vr this best_in[OF ne] le l'_le[OF ne]] show ?thesis .
    qed
    then show "cmp v (fold (selectLatest inRange cmp r) (x # xs) l) \<le> 0" by simp
  qed
qed

lemma fold_selectLatest_nonempty:
  assumes "\<not> inRange [] r" and "l \<noteq> [] \<or> (\<exists>v \<in> set vs. inRange v r)"
  shows "fold (selectLatest inRange cmp r) vs l \<noteq> []"
  using assms(2)
proof (induction vs arbitrary: l)
  case Nil
  then show ?case by simp
next
  case (Cons x xs)
  have "selectLatest inRange cmp r x l \<noteq> [] \<or> (\<exists>v \<in> set xs. inRange v r)"
    using Cons.prems assms(1) by (auto simp: selectLatest_def)
  from Cons.IH[OF this] show ?case by simp
qed

section \<open>The resolver: claims\<close>

subsection \<open>C1: the maximum under semantic-version ordering\<close>

text \<open>
  The program that writes \<^verbatim>\<open>-latest-all.json\<close> meets C1 for every library whose
  \<^verbatim>\<open>Compare\<close> is a total preorder and which refuses the empty string as a version: when
  some published version is in range, the result is a published version in range that no
  other one in range exceeds.
\<close>

lemma getLatestVersionForRange_maximum:
  assumes fetched: "npm_view_versions w p = Inr out" "unmarshal_versions w out = Inr vs"
    and empty: "NewVersion lib [] = None"
    and refl: "\<And>a. Compare lib a a \<le> 0"
    and flip: "\<And>a b. 0 < Compare lib a b \<Longrightarrow> Compare lib b a \<le> 0"
    and trans: "\<And>a b c. Compare lib a b \<le> 0 \<Longrightarrow> Compare lib b c \<le> 0 \<Longrightarrow> Compare lib a c \<le> 0"
    and some: "\<exists>v \<in> set vs. isVersionInRange lib v r"
  shows "\<exists>best. getLatestVersionForRange lib w p r = Inr best \<and> best \<in> set vs \<and>
           isVersionInRange lib best r \<and>
           (\<forall>v \<in> set vs. isVersionInRange lib v r \<longrightarrow> compareVersions lib v best \<le> 0)"
proof -
  let ?in = "isVersionInRange lib" and ?cmp = "compareVersions lib"
  let ?best = "fold (selectLatest ?in ?cmp r) vs []"
  have noempty: "\<not> ?in [] r"
    using empty by (simp add: isVersionInRange_def split: option.splits)
  have ne: "?best \<noteq> []"
    using fold_selectLatest_nonempty[where inRange = ?in and cmp = ?cmp and r = r and l = "[]" and vs = vs] noempty some by blast
  with fold_selectLatest_cases[of ?in ?cmp r vs "[]"]
  have mem: "?best \<in> set vs" "?in ?best r" by auto
  have r': "?cmp a a \<le> 0" for a
    using refl by (simp add: compareVersions_def split: option.splits)
  have f': "?cmp b a \<le> 0" if "?in a r" "?in b r" "0 < ?cmp a b" for a b
  proof -
    from isVersionInRange_parsed[OF that(1)] isVersionInRange_parsed[OF that(2)]
    obtain va vb where p: "NewVersion lib a = Some va" "NewVersion lib b = Some vb" by blast
    with that(3) flip[of va vb] show ?thesis by (simp add: compareVersions_def)
  qed
  have t': "?cmp a c \<le> 0" if "?in a r" "?in b r" "?in c r" "?cmp a b \<le> 0" "?cmp b c \<le> 0" for a b c
  proof -
    from isVersionInRange_parsed[OF that(1)] isVersionInRange_parsed[OF that(2)]
      isVersionInRange_parsed[OF that(3)]
    obtain va vb vc where p: "NewVersion lib a = Some va" "NewVersion lib b = Some vb"
      "NewVersion lib c = Some vc" by blast
    with that(4,5) trans[of va vb vc] show ?thesis by (simp add: compareVersions_def)
  qed
  have "\<forall>v \<in> set vs \<union> (if [] = ([]::string) then {} else {[]}). ?in v r \<longrightarrow> ?cmp v ?best \<le> 0"
    by (rule fold_selectLatest_maximum[where inRange = ?in and cmp = ?cmp and l = "[]"])
       (use r' f' t' noempty in blast)+
  then have max: "\<forall>v \<in> set vs. ?in v r \<longrightarrow> ?cmp v ?best \<le> 0" by simp
  have "getLatestVersionForRange lib w p r = Inr ?best"
    using ne by (simp add: getLatestVersionForRange_def getLatestVersionForRangeWith_fetched[OF fetched])
  with mem max show ?thesis by blast
qed

text \<open>
  C1 on \<^verbatim>\<open>get_dependencies/main.go\<close>, whose \<^verbatim>\<open>compareVersions\<close> is \<^verbatim>\<open>strings.Compare\<close>:
  for the published versions \<^verbatim>\<open>["9.0.0","10.0.0"]\<close> and the range \<^verbatim>\<open>>=0.0.0\<close> the
  string \<^verbatim>\<open>10.0.0\<close> compares below \<^verbatim>\<open>9.0.0\<close> and the result is \<^verbatim>\<open>9.0.0\<close>, where C1
  says \<^verbatim>\<open>10.0.0\<close>; the program that writes \<^verbatim>\<open>-latest-all.json\<close> returns \<^verbatim>\<open>10.0.0\<close>.
\<close>

theorem lexicographic_compare_selects_9_0_0:
  "compareVersions_main ''10.0.0'' ''9.0.0'' = - 1 \<and>
   getLatestVersionForRange_main semverFragment versionsWorld ''pkg'' ''>=0.0.0'' = Inr ''9.0.0'' \<and>
   getLatestVersionForRange semverFragment versionsWorld ''pkg'' ''>=0.0.0'' = Inr ''10.0.0''"
  by code_simp

subsection \<open>C2: range membership\<close>

text \<open>The range test of the resolver program without the library is the substring relation.\<close>

lemma isVersionInRange_contains_iff:
  "isVersionInRange_contains version versionRange \<longleftrightarrow>
     (\<exists>pre post. versionRange = pre @ version @ post)"
  by (simp add: isVersionInRange_contains_def stringsContains_iff)

text \<open>
  C2 on the program whose \<^verbatim>\<open>isVersionInRange\<close> is \<^verbatim>\<open>strings.Contains\<close>: the version
  \<^verbatim>\<open>1.9.9\<close> satisfies \<^verbatim>\<open>^1.0.0\<close> and is refused, because it is no substring of the
  range; of the published versions \<^verbatim>\<open>["1.0.0","1.2.0","1.9.9","2.0.0"]\<close> only \<^verbatim>\<open>1.0.0\<close>
  is accepted and returned, where the programs that ask the library return \<^verbatim>\<open>1.9.9\<close>.
\<close>

theorem substring_range_check_rejects_member:
  "isVersionInRange_contains ''1.9.9'' ''^1.0.0'' = False \<and>
   isVersionInRange semverFragment ''1.9.9'' ''^1.0.0'' = True \<and>
   getLatestVersionForRange_contains versionsWorld ''lib'' ''^1.0.0'' = Inr ''1.0.0'' \<and>
   getLatestVersionForRange semverFragment versionsWorld ''lib'' ''^1.0.0'' = Inr ''1.9.9''"
  by code_simp

subsection \<open>C4: a range that does not parse\<close>

text \<open>
  C4, as stated, fails: \<^verbatim>\<open>isVersionInRange\<close> answers false when the range does not
  parse, so no version is in range and the call fails with the error of a valid range
  that nothing satisfies. The range \<^verbatim>\<open>not-a-range\<close> and the valid, unsatisfied range
  \<^verbatim>\<open>^2.0.0\<close> give the same kind of error.
\<close>

theorem parse_failure_reported_as_no_match_counterexample:
  "NewConstraint semverFragment ''not-a-range'' = None \<and>
   getLatestVersionForRange semverFragment versionsWorld ''pkg'' ''not-a-range'' =
     Inl (NoVersionFound ''pkg'' ''not-a-range'') \<and>
   getLatestVersionForRange semverFragment versionsWorld ''old'' ''^2.0.0'' =
     Inl (NoVersionFound ''old'' ''^2.0.0'')"
  by code_simp

text \<open>
  C4, amended: when the published versions can be fetched and decoded, a call of
  \<^verbatim>\<open>getLatestVersionForRange\<close> with a range that is not a valid constraint expression
  fails, with the error \<^verbatim>\<open>no version found for <package> in range <range>\<close>, which is
  also the error for a valid range that no version satisfies.
\<close>

theorem unparsable_range_is_no_version_found:
  assumes "NewConstraint lib versionRange = None"
    and "npm_view_versions w packageName = Inr out" and "unmarshal_versions w out = Inr versions"
  shows "getLatestVersionForRange lib w packageName versionRange =
           Inl (NoVersionFound packageName versionRange) \<and>
         getLatestVersionForRange_main lib w packageName versionRange =
           Inl (NoVersionFound packageName versionRange)"
proof -
  have "\<forall>v \<in> set versions. \<not> isVersionInRange lib v versionRange"
    using assms(1) by (simp add: isVersionInRange_def)
  then show ?thesis
    by (simp add: getLatestVersionForRange_def getLatestVersionForRange_main_def
        getLatestVersionForRangeWith_fetched[OF assms(2,3)] fold_selectLatest_none)
qed

text \<open>C4, amended, on \<^verbatim>\<open>not-a-range\<close>.\<close>

theorem unparsable_range_is_no_version_found_witness:
  "NewConstraint semverFragment ''not-a-range'' = None \<and>
   getLatestVersionForRange semverFragment versionsWorld ''pkg'' ''not-a-range'' =
     Inl (NoVersionFound ''pkg'' ''not-a-range'') \<and>
   getLatestVersionForRange_main semverFragment versionsWorld ''pkg'' ''not-a-range'' =
     Inl (NoVersionFound ''pkg'' ''not-a-range'')"
proof -
  have h1: "NewConstraint semverFragment ''not-a-range'' = None" by code_simp
  have h2: "npm_view_versions versionsWorld ''pkg'' = Inr ''[\"9.0.0\",\"10.0.0\"]''" by code_simp
  have h3: "unmarshal_versions versionsWorld ''[\"9.0.0\",\"10.0.0\"]'' = Inr [''9.0.0'', ''10.0.0'']"
    by code_simp
  from unparsable_range_is_no_version_found[OF h1 h2 h3] h1 show ?thesis by simp
qed

subsection \<open>C5: one failed resolution fails the build\<close>

text \<open>
  C5: when the resolution of some entry of the closure fails, \<^verbatim>\<open>saveLatestVersionsToFile\<close>
  returns an error and writes nothing, whatever the other entries would resolve to. The
  error is the wrapped error of the first failing entry in iteration order; every entry
  before it resolved.
\<close>

theorem build_fails_fast:
  assumes "(dep, versionRange) \<in> set (Dependencies packageInfo)"
    and "getLatestVersionForRange lib w dep versionRange = Inl e"
  shows "\<exists>pre d r e' post. Dependencies packageInfo = pre @ (d, r) # post \<and>
           getLatestVersionForRange lib w d r = Inl e' \<and>
           (\<forall>(d0, r0) \<in> set pre. \<exists>v. getLatestVersionForRange lib w d0 r0 = Inr v) \<and>
           saveLatestVersionsToFile lib w filePath packageInfo fs =
             (Some (FetchLatestError d e'), fs)"
  unfolding saveLatestVersionsToFile_def
  using assms by (rule saveLatestVersionsToFileWith_fails)

text \<open>C5 on a closure of three entries, the second of which has no matching version.\<close>

theorem build_fails_fast_witness:
  "(''old'', ''^2.0.0'') \<in> set (Dependencies threeEntries) \<and>
   getLatestVersionForRange semverFragment versionsWorld ''old'' ''^2.0.0'' =
     Inl (NoVersionFound ''old'' ''^2.0.0'') \<and>
   getLatestVersionForRange semverFragment versionsWorld ''pkg'' ''>=0.0.0'' = Inr ''10.0.0'' \<and>
   getLatestVersionForRange semverFragment versionsWorld ''lib'' ''^1.0.0'' = Inr ''1.9.9'' \<and>
   saveLatestVersionsToFile semverFragment versionsWorld ''app@1.0.0-latest-all.json'' threeEntries Map.empty =
     (Some (FetchLatestError ''old'' (NoVersionFound ''old'' ''^2.0.0'')), Map.empty)"
proof -
  have h1: "(''old'', ''^2.0.0'') \<in> set (Dependencies threeEntries)"
    by (simp add: threeEntries_def)
  have h2: "getLatestVersionForRange semverFragment versionsWorld ''old'' ''^2.0.0'' =
     Inl (NoVersionFound ''old'' ''^2.0.0'')" by code_simp
  have others: "getLatestVersionForRange semverFragment versionsWorld ''pkg'' ''>=0.0.0'' = Inr ''10.0.0''"
    "getLatestVersionForRange semverFragment versionsWorld ''lib'' ''^1.0.0'' = Inr ''1.9.9''"
    by code_simp+
  from build_fails_fast[OF h1 h2, of "''app@1.0.0-latest-all.json''" Map.empty]
  obtain d e' where save: "saveLatestVersionsToFile semverFragment versionsWorld
      ''app@1.0.0-latest-all.json'' threeEntries Map.empty = (Some (FetchLatestError d e'), Map.empty)"
    by blast
  have "fst (saveLatestVersionsToFile semverFragment versionsWorld
      ''app@1.0.0-latest-all.json'' threeEntries Map.empty) =
      Some (FetchLatestError ''old'' (NoVersionFound ''old'' ''^2.0.0''))"
    by code_simp
  with save have "d = ''old''" "e' = NoVersionFound ''old'' ''^2.0.0''" by simp_all
  with save h1 h2 others show ?thesis by simp
qed

text \<open>The same holds of \<^verbatim>\<open>saveLatestVersionsToFile\<close> in \<^verbatim>\<open>get_dependencies/main.go\<close>.\<close>

lemma saveLatestVersionsToFile_main_fails:
  assumes "(dep, versionRange) \<in> set (Dependencies packageInfo)"
    and "getLatestVersionForRange_main lib w dep versionRange = Inl e"
  shows "\<exists>pre d r e' post. Dependencies packageInfo = pre @ (d, r) # post \<and>
           getLatestVersionForRange_main lib w d r = Inl e' \<and>
           (\<forall>(d0, r0) \<in> set pre. \<exists>v. getLatestVersionForRange_main lib w d0 r0 = Inr v) \<and>
           saveLatestVersionsToFile_main lib w filePath packageInfo fs =
             (Some (FetchLatestError d e'), fs)"
  unfolding saveLatestVersionsToFile_main_def
  using assms by (rule saveLatestVersionsToFileWith_fails)

subsection \<open>C8: a valid range that nothing satisfies\<close>

text \<open>
  C8: when the range parses and no published version that parses satisfies it,
  \<^verbatim>\<open>getLatestVersionForRange\<close> fails with \<^verbatim>\<open>no version found for <package> in range <range>\<close>,
  which names both; and no file with resolved versions is written for a closure that
  holds this entry, so no resolved map lacks the key.
\<close>

theorem no_match_is_no_version_found:
  assumes "npm_view_versions w packageName = Inr out"
    and "unmarshal_versions w out = Inr versions"
    and "NewConstraint lib versionRange = Some c"
    and "\<forall>version \<in> set versions. \<forall>v. NewVersion lib version = Some v \<longrightarrow> \<not> Check lib c v"
  shows "getLatestVersionForRange lib w packageName versionRange =
           Inl (NoVersionFound packageName versionRange) \<and>
         getLatestVersionForRange_main lib w packageName versionRange =
           Inl (NoVersionFound packageName versionRange) \<and>
         (\<forall>filePath packageInfo fs.
            (packageName, versionRange) \<in> set (Dependencies packageInfo) \<longrightarrow>
            (\<exists>err. saveLatestVersionsToFile lib w filePath packageInfo fs = (Some err, fs)))"
proof -
  have none: "\<forall>v \<in> set versions. \<not> isVersionInRange lib v versionRange"
    using assms(3,4) by (auto simp: isVersionInRange_def split: option.splits)
  then have fail: "getLatestVersionForRange lib w packageName versionRange =
           Inl (NoVersionFound packageName versionRange)"
    and "getLatestVersionForRange_main lib w packageName versionRange =
           Inl (NoVersionFound packageName versionRange)"
    by (simp_all add: getLatestVersionForRange_def getLatestVersionForRange_main_def
        getLatestVersionForRangeWith_fetched[OF assms(1,2)] fold_selectLatest_none)
  moreover have "\<exists>err. saveLatestVersionsToFile lib w filePath packageInfo fs = (Some err, fs)"
    if "(packageName, versionRange) \<in> set (Dependencies packageInfo)" for filePath packageInfo fs
    using saveLatestVersionsToFileWith_fails[OF that, of "getLatestVersionForRange lib w" _ w filePath fs] fail
    unfolding saveLatestVersionsToFile_def by blast
  ultimately show ?thesis by blast
qed

text \<open>C8 on the published versions \<^verbatim>\<open>["1.0.0"]\<close> and the range \<^verbatim>\<open>^2.0.0\<close>.\<close>

theorem no_match_is_no_version_found_witness:
  "NewConstraint semverFragment ''^2.0.0'' = Some (Caret (2, 0, 0)) \<and>
   unmarshal_versions versionsWorld ''[\"1.0.0\"]'' = Inr [''1.0.0''] \<and>
   getLatestVersionForRange semverFragment versionsWorld ''old'' ''^2.0.0'' =
     Inl (NoVersionFound ''old'' ''^2.0.0'') \<and>
   (\<exists>err. saveLatestVersionsToFile semverFragment versionsWorld ''app@1.0.0-latest-all.json''
            threeEntries Map.empty = (Some err, Map.empty))"
proof -
  have h1: "npm_view_versions versionsWorld ''old'' = Inr ''[\"1.0.0\"]''" by code_simp
  have h2: "unmarshal_versions versionsWorld ''[\"1.0.0\"]'' = Inr [''1.0.0'']" by code_simp
  have h3: "NewConstraint semverFragment ''^2.0.0'' = Some (Caret (2, 0, 0))" by code_simp
  have parsed: "NewVersion semverFragment ''1.0.0'' = Some (1, 0, 0)" by code_simp
  have unmet: "\<not> Check semverFragment (Caret (2, 0, 0)) (1, 0, 0)" by code_simp
  have h4: "\<forall>version \<in> set [''1.0.0'']. \<forall>v. NewVersion semverFragment version = Some v \<longrightarrow>
      \<not> Check semverFragment (Caret (2, 0, 0)) v"
    using parsed unmet by simp
  have mem: "(''old'', ''^2.0.0'') \<in> set (Dependencies threeEntries)"
    by (simp add: threeEntries_def)
  from no_match_is_no_version_found[OF h1 h2 h3 h4] mem h2 h3 show ?thesis by blast
qed

subsection \<open>C10: published versions that do not parse\<close>

text \<open>
  C10: a version returned by \<^verbatim>\<open>getLatestVersionForRange\<close> parses as a semantic version,
  and the call returns the same (the same version or the same error) when the published
  versions that do not parse are removed from the list beforehand.
\<close>

theorem invalid_published_versions_are_skipped:
  "(getLatestVersionForRange lib w packageName versionRange = Inr best \<longrightarrow>
      NewVersion lib best \<noteq> None) \<and>
   getLatestVersionForRange lib
     (w\<lparr>unmarshal_versions :=
          \<lambda>s. map_sum id (filter (\<lambda>version. NewVersion lib version \<noteq> None)) (unmarshal_versions w s)\<rparr>)
     packageName versionRange =
   getLatestVersionForRange lib w packageName versionRange"
proof
  show "getLatestVersionForRange lib w packageName versionRange = Inr best \<longrightarrow>
      NewVersion lib best \<noteq> None"
    unfolding getLatestVersionForRange_def
    using getLatestVersionForRangeWith_Inr[of "isVersionInRange lib" "compareVersions lib" w packageName versionRange best]
      isVersionInRange_parsed[of lib best versionRange] by auto
next
  have skip: "\<not> isVersionInRange lib v versionRange" if "\<not> NewVersion lib v \<noteq> None" for v
    using that by (simp add: isVersionInRange_def split: option.splits)
  have filt: "fold (selectLatest (isVersionInRange lib) (compareVersions lib) versionRange)
          (filter (\<lambda>version. NewVersion lib version \<noteq> None) vs) [] =
        fold (selectLatest (isVersionInRange lib) (compareVersions lib) versionRange) vs []" for vs
    by (rule fold_selectLatest_filter) (rule skip)
  let ?w' = "w\<lparr>unmarshal_versions :=
          \<lambda>s. map_sum id (filter (\<lambda>version. NewVersion lib version \<noteq> None)) (unmarshal_versions w s)\<rparr>"
  show "getLatestVersionForRange lib ?w' packageName versionRange =
   getLatestVersionForRange lib w packageName versionRange"
  proof (cases "npm_view_versions w packageName")
    case (Inl err)
    then show ?thesis
      by (simp add: getLatestVersionForRange_def getLatestVersionForRangeWith_def)
  next
    case (Inr out)
    show ?thesis
    proof (cases "unmarshal_versions w out")
      case (Inl err)
      with Inr show ?thesis
        by (simp add: getLatestVersionForRange_def getLatestVersionForRangeWith_def)
    next
      case decoded: (Inr vs)
      have f: "npm_view_versions ?w' packageName = Inr out"
        "unmarshal_versions ?w' out = Inr (filter (\<lambda>version. NewVersion lib version \<noteq> None) vs)"
        using Inr decoded by simp_all
      show ?thesis
        unfolding getLatestVersionForRange_def
          getLatestVersionForRangeWith_fetched[OF f]
          getLatestVersionForRangeWith_fetched[OF Inr decoded] filt ..
    qed
  qed
qed

text \<open>C10 on the published versions \<^verbatim>\<open>["1.0.0","not-a-version","1.2.0"]\<close>.\<close>

theorem invalid_published_versions_are_skipped_witness:
  "unmarshal_versions versionsWorld ''[\"1.0.0\",\"not-a-version\",\"1.2.0\"]'' =
     Inr [''1.0.0'', ''not-a-version'', ''1.2.0''] \<and>
   NewVersion semverFragment ''not-a-version'' = None \<and>
   getLatestVersionForRange semverFragment versionsWorld ''odd'' ''^1.0.0'' = Inr ''1.2.0'' \<and>
   NewVersion semverFragment ''1.2.0'' \<noteq> None \<and>
   getLatestVersionForRange semverFragment
     (versionsWorld\<lparr>unmarshal_versions :=
          \<lambda>s. map_sum id (filter (\<lambda>version. NewVersion semverFragment version \<noteq> None))
                 (unmarshal_versions versionsWorld s)\<rparr>)
     ''odd'' ''^1.0.0'' = Inr ''1.2.0''"
proof -
  have run: "getLatestVersionForRange semverFragment versionsWorld ''odd'' ''^1.0.0'' = Inr ''1.2.0''"
    by code_simp
  have h: "unmarshal_versions versionsWorld ''[\"1.0.0\",\"not-a-version\",\"1.2.0\"]'' =
     Inr [''1.0.0'', ''not-a-version'', ''1.2.0'']"
    "NewVersion semverFragment ''not-a-version'' = None"
    by code_simp+
  from invalid_published_versions_are_skipped[of semverFragment versionsWorld "''odd''" "''^1.0.0''" "''1.2.0''"]
    run h show ?thesis by simp
qed

end
